theory Spec2Isabelle
  imports Main "HOL-Library.Sublist" "HOL-Library.Char_ord" "HOL-Library.List_Lexorder"
begin

section \<open>FASTA.cpp: the FASTA reader and writer of SNAPLib\<close>

text \<open>
  A C string is modelled by the list of its characters before the terminating NUL, so a
  \<open>string\<close> here never holds a NUL inside. A \<open>char *\<close> into a line buffer is an index
  into that list; the index \<open>length s\<close> is the terminator, anything larger is outside the
  string. Lengths and offsets are natural numbers. The contig counter and the size bound of
  lines 94 to 103 are computed in \<open>unsigned\<close> and \<open>size_t\<close>; the model writes their
  wrap-around out as \<open>mod 2 ^ 32\<close> and \<open>mod 2 ^ 64\<close>. The padding size is the value of an
  \<open>unsigned\<close> parameter.
\<close>

abbreviation NL :: char where "NL \<equiv> CHR 0x0A"
abbreviation CR :: char where "CR \<equiv> CHR 0x0D"
abbreviation TAB :: char where "TAB \<equiv> CHR 0x09"

subsection \<open>C library functions used by the source\<close>

text \<open>\<open>strchr(s, c)\<close> for a character \<open>c\<close> other than NUL: the offset of the first \<open>c\<close>.\<close>

fun strchr :: "string \<Rightarrow> char \<Rightarrow> nat option" where
  "strchr [] c = None"
| "strchr (x # xs) c = (if x = c then Some 0 else map_option Suc (strchr xs c))"

text \<open>\<open>strstr(s, t)\<close>: the offset of the first occurrence of \<open>t\<close> in \<open>s\<close>.\<close>

fun strstr :: "string \<Rightarrow> string \<Rightarrow> nat option" where
  "strstr [] t = (if t = [] then Some 0 else None)"
| "strstr (x # xs) t = (if prefix t (x # xs) then Some 0 else map_option Suc (strstr xs t))"

text \<open>\<open>toupper\<close> in the C locale: the letters a to z move to A to Z, every other byte stays.\<close>

definition toupper :: "char \<Rightarrow> char" where
  "toupper c =
     (case map_of (zip ''abcdefghijklmnopqrstuvwxyz'' ''ABCDEFGHIJKLMNOPQRSTUVWXYZ'') c of
        Some u \<Rightarrow> u
      | None \<Rightarrow> c)"

text \<open>\<open>s[i]\<close> for \<open>i\<close> up to the terminator, which reads as NUL.\<close>

definition char_at :: "string \<Rightarrow> nat \<Rightarrow> char" where
  "char_at s i = (if i < length s then s ! i else CHR 0x00)"

subsection \<open>The validity table and the per-line normalisation (lines 50 to 57, 188 to 215)\<close>

text \<open>The 256-entry table \<open>isValidGenomeCharacter\<close>: true at A, T, C, G, N and a, t, c, g, n.\<close>

definition isValidGenomeCharacter :: "char \<Rightarrow> bool" where
  "isValidGenomeCharacter c = (c \<in> set ''ATCGNatcgn'')"

text \<open>Line 188 to 191: the line is cut at its first newline.\<close>

definition truncate_newline :: "string \<Rightarrow> string" where
  "truncate_newline line = (case strchr line NL of None \<Rightarrow> line | Some i \<Rightarrow> take i line)"

text \<open>
  The second loop (lines 203 to 215) over the characters still to visit. \<open>w\<close> is
  \<open>warningIssued\<close>; the result is the rewritten characters, the flag afterwards and the
  characters that a warning was written for, in order.
\<close>

fun check_bases :: "bool \<Rightarrow> string \<Rightarrow> string \<times> bool \<times> char list" where
  "check_bases w [] = ([], w, [])"
| "check_bases w (c # cs) =
     (let c' = (if c = CHR ''N'' then CHR ''n'' else c) in
      if \<not> isValidGenomeCharacter c' then
        (case check_bases True cs of
           (out, w', ms) \<Rightarrow> (CHR ''N'' # out, w', if \<not> w then c' # ms else ms))
      else
        (case check_bases w cs of (out, w', ms) \<Rightarrow> (c' # out, w', ms)))"

text \<open>Both loops on one line whose newline is already cut: upper case first, then the checks.\<close>

definition normalize_line :: "bool \<Rightarrow> string \<Rightarrow> string \<times> bool \<times> char list" where
  "normalize_line w line = check_bases w (map toupper line)"

text \<open>The normalisation as a function of the line alone: what is appended to the genome.\<close>

definition normalize_bases :: "string \<Rightarrow> string" where
  "normalize_bases line = fst (normalize_line False line)"

subsection \<open>Contig names: the free form (lines 127 to 157)\<close>

text \<open>Lines 133 to 135 and their copies: \<open>if (NULL != p && p < terminator) terminator = p\<close>.\<close>

definition nearer :: "nat option \<Rightarrow> nat \<Rightarrow> nat" where
  "nearer p terminator =
     (case p of None \<Rightarrow> terminator | Some i \<Rightarrow> if i < terminator then i else terminator)"

text \<open>\<open>strchr(lineBuffer + k, c)\<close>, as an index into \<open>lineBuffer\<close>.\<close>

definition strchr_from :: "string \<Rightarrow> nat \<Rightarrow> char \<Rightarrow> nat option" where
  "strchr_from s k c = map_option (\<lambda>i. i + k) (strchr (drop k s) c)"

text \<open>
  The branch \<open>chrTag == NULL\<close>, with \<open>pntc\<close> for \<open>pieceNameTerminatorCharacters\<close> and
  \<open>space\<close> for \<open>spaceIsAPieceNameTerminator\<close>. It runs on header lines only, whose first character is
  the marker, so \<open>terminator\<close> is at least 1 when the length is taken.
\<close>

definition free_form_name :: "string option \<Rightarrow> bool \<Rightarrow> string \<Rightarrow> string" where
  "free_form_name pntc space lineBuffer =
     (let t0 = length lineBuffer;
          t1 = (case pntc of
                  None \<Rightarrow> t0
                | Some cs \<Rightarrow> fold (\<lambda>c t. nearer (strchr_from lineBuffer 1 c) t) cs t0);
          t2 = (if space
                then nearer (strchr lineBuffer TAB) (nearer (strchr lineBuffer CHR '' '') t1)
                else t1);
          t3 = nearer (strchr lineBuffer NL) t2;
          t4 = nearer (strchr lineBuffer CR) t3
      in take (t4 - 1) (drop 1 lineBuffer))"

subsection \<open>FindFASTATagValue (lines 257 to 275)\<close>

datatype tag_search = Accepted nat | NoOccurrence | PastTerminator

text \<open>
  The \<open>do ... while\<close> loop. \<open>tag\<close> is the index of the pointer \<open>tag\<close>; the search goes on
  from \<open>tag + 1\<close>, which is outside the string once \<open>tag\<close> is on the terminator.
\<close>

function tag_loop :: "string \<Rightarrow> string \<Rightarrow> nat \<Rightarrow> tag_search" where
  "tag_loop lineBuffer tagName tag =
     (if length lineBuffer < tag + 1 then PastTerminator
      else
        (case strstr (drop (tag + 1) lineBuffer) tagName of
           None \<Rightarrow> NoOccurrence
         | Some k \<Rightarrow>
             if char_at lineBuffer (tag + k) \<noteq> CHR ''>''
                \<and> char_at lineBuffer (tag + k) \<noteq> CHR ''|''
                \<and> char_at lineBuffer (tag + 1 + k + length tagName) \<noteq> CHR ''|''
             then tag_loop lineBuffer tagName (tag + 1 + k)
             else Accepted (tag + 1 + k)))"
  by pat_completeness auto
termination
  by (relation "measure (\<lambda>(lineBuffer, tagName, tag). Suc (length lineBuffer) - tag)") auto

datatype tag_result = TagValue string | TagNotFound | TagBadlyFormatted | TagReadPastEnd

text \<open>
  \<open>TagNotFound\<close> is the return value \<open>false\<close>, \<open>TagBadlyFormatted\<close> the error message
  followed by \<open>soft_exit(1)\<close>. \<open>TagReadPastEnd\<close> stands for the runs in which the source
  reads beyond the terminator of the line, where C leaves the behaviour open.
\<close>

definition FindFASTATagValue :: "string \<Rightarrow> string \<Rightarrow> tag_result" where
  "FindFASTATagValue lineBuffer tagName =
     (case tag_loop lineBuffer tagName 0 of
        NoOccurrence \<Rightarrow> TagNotFound
      | PastTerminator \<Rightarrow> TagReadPastEnd
      | Accepted tag \<Rightarrow>
          (let v = tag + length tagName + 1 in
           if length lineBuffer < v then TagReadPastEnd
           else
             (case strchr (drop v lineBuffer) CHR ''|'' of
                None \<Rightarrow> TagBadlyFormatted
              | Some n \<Rightarrow> TagValue (take n (drop v lineBuffer)))))"

subsection \<open>ReadFASTAGenome (lines 34 to 234)\<close>

text \<open>
  The parameters. \<open>chrMap\<close> is the table read from \<open>chrMapFilename\<close>, \<open>None\<close> when that
  name is \<open>NULL\<close>; \<open>altMap\<close> says whether an alt-contig map was passed. The runs in which
  a file cannot be opened are not part of the model.
\<close>

record config =
  pieceNameTerminatorCharacters :: "string option"
  spaceIsAPieceNameTerminator :: bool
  chromosomePaddingSize :: nat
  chrTag :: "string option"
  chrMap :: "(string \<rightharpoonup> string) option"
  altMap :: bool

text \<open>The calls that the loader makes on the genome and on the alt-contig map, in order.\<close>

datatype call =
    NewGenome nat nat nat nat
  | AddData string
  | AddFastaContig string string
  | StartContig string
  | FillInContigLengths
  | AdjustAltContigs
  | SortContigsByName

text \<open>The reasons for \<open>soft_exit(1)\<close>, and the read beyond a line's terminator.\<close>

datatype fatal = NoContigName | TagMissing | TagMalformed | ReadPastTerminator

text \<open>
  The state of a load: the calls made so far, the characters the invalid-base warning
  was written for, and the two flags of lines 111 and 112.
\<close>

record loader =
  calls :: "call list"
  warnings :: "char list"
  warningIssued :: bool
  inAContig :: bool

datatype outcome = Done loader | Exit fatal loader

definition is_header :: "string \<Rightarrow> bool" where
  "is_header lineBuffer = (char_at lineBuffer 0 = CHR ''>'')"

definition paddingBuffer :: "config \<Rightarrow> string" where
  "paddingBuffer cfg = replicate (chromosomePaddingSize cfg) CHR ''n''"

text \<open>Lines 125 to 170: the name handed to \<open>startContig\<close>.\<close>

definition contigName :: "config \<Rightarrow> string \<Rightarrow> fatal + string" where
  "contigName cfg lineBuffer =
     (case chrTag cfg of
        None \<Rightarrow>
          Inr (free_form_name (pieceNameTerminatorCharacters cfg)
                 (spaceIsAPieceNameTerminator cfg) lineBuffer)
      | Some tagName \<Rightarrow>
          (case FindFASTATagValue lineBuffer tagName of
             TagNotFound \<Rightarrow> Inl TagMissing
           | TagBadlyFormatted \<Rightarrow> Inl TagMalformed
           | TagReadPastEnd \<Rightarrow> Inl ReadPastTerminator
           | TagValue v \<Rightarrow>
               (case chrMap cfg of
                  None \<Rightarrow> Inr v
                | Some m \<Rightarrow> (case m v of None \<Rightarrow> Inr v | Some mapped \<Rightarrow> Inr mapped))))"

text \<open>The body of the main loop (lines 115 to 217) for one line.\<close>

definition process_line :: "config \<Rightarrow> loader \<Rightarrow> string \<Rightarrow> outcome" where
  "process_line cfg st lineBuffer =
     (if is_header lineBuffer then
        (let st1 = st\<lparr>inAContig := True, calls := calls st @ [AddData (paddingBuffer cfg)]\<rparr> in
         case contigName cfg lineBuffer of
           Inl e \<Rightarrow> Exit e st1
         | Inr chrName \<Rightarrow>
             Done (st1\<lparr>calls := calls st1
                      @ (if altMap cfg then [AddFastaContig lineBuffer chrName] else [])
                      @ [StartContig chrName]\<rparr>))
      else if \<not> inAContig st then Exit NoContigName st
      else
        (case normalize_line (warningIssued st) (truncate_newline lineBuffer) of
           (out, w, ms) \<Rightarrow>
             Done (st\<lparr>calls := calls st @ [AddData out], warningIssued := w,
                      warnings := warnings st @ ms\<rparr>)))"

fun load_loop :: "config \<Rightarrow> loader \<Rightarrow> string list \<Rightarrow> outcome" where
  "load_loop cfg st [] = Done st"
| "load_loop cfg st (lineBuffer # rest) =
     (case process_line cfg st lineBuffer of
        Done st' \<Rightarrow> load_loop cfg st' rest
      | Exit e st' \<Rightarrow> Exit e st')"

text \<open>Lines 94 to 100: the counting pass; \<open>nChromosomes\<close> is an \<open>unsigned\<close>.\<close>

definition count_chromosomes :: "string list \<Rightarrow> nat" where
  "count_chromosomes lines =
     fold (\<lambda>lineBuffer n. if is_header lineBuffer then (n + 1) mod 2 ^ 32 else n) lines 0"

text \<open>
  Line 103: the bound passed twice to the constructor of the genome. \<open>nChromosomes+1\<close> is
  formed in \<open>unsigned\<close>, the product and the sum in \<open>size_t\<close>.
\<close>

definition genome_size_bound :: "nat \<Rightarrow> nat \<Rightarrow> nat \<Rightarrow> nat" where
  "genome_size_bound fileSize nChromosomes padding =
     (fileSize + ((nChromosomes + 1) mod 2 ^ 32) * padding) mod 2 ^ 64"

text \<open>Lines 103 to 112: the genome is created; no warning yet, no contig yet.\<close>

definition initial_state :: "config \<Rightarrow> nat \<Rightarrow> string list \<Rightarrow> loader" where
  "initial_state cfg fileSize lines =
     (let nChromosomes = count_chromosomes lines;
          bound = genome_size_bound fileSize nChromosomes (chromosomePaddingSize cfg)
      in \<lparr>calls = [NewGenome bound bound (chromosomePaddingSize cfg)
                       ((nChromosomes + 1) mod 2 ^ 32)],
            warnings = [], warningIssued = False, inAContig = False\<rparr>)"

text \<open>
  \<open>ReadFASTAGenome\<close> from line 91 on. \<open>QueryFileSize\<close> and \<open>reallocatingFgets\<close> are not in
  this file, so what they return is a parameter: \<open>fileSize\<close> is the size of the file and
  \<open>lines\<close> are the C strings that the reader returns one after the other. The file is
  read twice, so both passes see the same lines.
\<close>

definition ReadFASTALines :: "config \<Rightarrow> nat \<Rightarrow> string list \<Rightarrow> outcome" where
  "ReadFASTALines cfg fileSize lines =
     (case load_loop cfg (initial_state cfg fileSize lines) lines of
        Exit e st \<Rightarrow> Exit e st
      | Done st \<Rightarrow>
          Done (st\<lparr>calls := calls st
                   @ [AddData (paddingBuffer cfg), FillInContigLengths]
                   @ (if altMap cfg then [AdjustAltContigs] else [])
                   @ [SortContigsByName]\<rparr>))"

text \<open>The state a run ends in, and the bytes passed to \<open>addData\<close> by a list of calls.\<close>

fun final_state :: "outcome \<Rightarrow> loader" where
  "final_state (Done st) = st"
| "final_state (Exit e st) = st"

fun appended :: "call list \<Rightarrow> string" where
  "appended [] = []"
| "appended (AddData d # cs) = d @ appended cs"
| "appended (c # cs) = appended cs"

subsection \<open>The genome that the calls build\<close>







subsection \<open>AppendFASTAGenome (lines 239 to 255)\<close>




subsection \<open>The properties of the specification, in its own words\<close>

text \<open>The characters that end a free-form name (section 4.5, policy 2).\<close>

definition name_terminators :: "string option \<Rightarrow> bool \<Rightarrow> char set" where
  "name_terminators pntc space =
     (case pntc of None \<Rightarrow> {} | Some cs \<Rightarrow> set cs)
     \<union> (if space then {CHR '' '', TAB} else {})
     \<union> {NL, CR}"

text \<open>
  Section 4.4: an occurrence of the tag at index \<open>i\<close> that has the marker or a pipe on its
  left and a pipe right after it, and whether a line has one.
\<close>

definition delimited_at :: "string \<Rightarrow> string \<Rightarrow> nat \<Rightarrow> bool" where
  "delimited_at lineBuffer tagName i =
     (0 < i \<and> prefix tagName (drop i lineBuffer) \<and> i + length tagName \<le> length lineBuffer
      \<and> (char_at lineBuffer (i - 1) = CHR ''>'' \<or> char_at lineBuffer (i - 1) = CHR ''|'')
      \<and> char_at lineBuffer (i + length tagName) = CHR ''|'')"

definition has_delimited_tag :: "string \<Rightarrow> string \<Rightarrow> bool" where
  "has_delimited_tag lineBuffer tagName =
     list_ex (delimited_at lineBuffer tagName) [0 ..< Suc (length lineBuffer)]"

text \<open>
  Section 3: the number of characters of a line, line terminators (newline and carriage
  return) left out, and the total that the first invariant gives for a list of lines.
\<close>

definition line_chars :: "string \<Rightarrow> nat" where
  "line_chars l = length (filter (\<lambda>c. c \<noteq> NL \<and> c \<noteq> CR) l)"

definition claimed_total :: "config \<Rightarrow> string list \<Rightarrow> nat" where
  "claimed_total cfg lines =
     sum_list (map line_chars (filter (\<lambda>l. \<not> is_header l) lines))
     + chromosomePaddingSize cfg * (length (filter is_header lines) + 1)"


text \<open>
  The contigs of an input, each with its name and its normalised sequence: the sequence
  lines up to the next header, their terminators cut, normalised and joined.
\<close>

definition stored_name :: "config \<Rightarrow> string \<Rightarrow> string" where
  "stored_name cfg l = (case contigName cfg l of Inl e \<Rightarrow> [] | Inr n \<Rightarrow> n)"



text \<open>What steps a and b leave in a character, and what step c then stores for it.\<close>

definition lower_N :: "char \<Rightarrow> char" where
  "lower_N c = (if c = CHR ''N'' then CHR ''n'' else c)"

definition base_of :: "char \<Rightarrow> char" where
  "base_of c = (if isValidGenomeCharacter c then c else CHR ''N'')"

text \<open>Section 4.5: the calls that the transition for one line makes.\<close>

definition line_calls :: "config \<Rightarrow> string \<Rightarrow> call list" where
  "line_calls cfg l =
     (if is_header l then
        [AddData (paddingBuffer cfg)]
        @ (if altMap cfg then [AddFastaContig l (stored_name cfg l)] else [])
        @ [StartContig (stored_name cfg l)]
      else [AddData (normalize_bases (truncate_newline l))])"

text \<open>
  Section 3: the bases of a list of lines, a padding block for each header, and the
  table of its contigs when the first line is stored at offset \<open>off\<close>.
\<close>

definition line_bases :: "config \<Rightarrow> string \<Rightarrow> string" where
  "line_bases cfg l = (if is_header l then paddingBuffer cfg else normalize_bases (truncate_newline l))"


text \<open>
  Section 4.5, steps a and b on a sequence line without its terminator, and the characters
  of the sequence lines of an input that the validity table rejects after these steps, in
  file order.
\<close>

definition prepared :: "string \<Rightarrow> string" where
  "prepared l = map (lower_N \<circ> toupper) (truncate_newline l)"

definition rejected_chars :: "string list \<Rightarrow> string" where
  "rejected_chars lines =
     filter (\<lambda>c. \<not> isValidGenomeCharacter c)
       (concat (map prepared (filter (\<lambda>l. \<not> is_header l) lines)))"

text \<open>
  Section 4.5, step c in the words of the specification: the valid set is A, T, C, G, n;
  a character outside it is replaced by \<open>N\<close>. \<open>invalid_chars\<close> are the characters of the
  sequence lines that are outside the valid set after steps a and b, in file order.
\<close>

definition replace_invalid :: "char \<Rightarrow> char" where
  "replace_invalid c = (if c \<in> set ''ATCGn'' then c else CHR ''N'')"

definition invalid_chars :: "string list \<Rightarrow> string" where
  "invalid_chars lines =
     filter (\<lambda>c. c \<notin> set ''ATCGn'')
       (concat (map prepared (filter (\<lambda>l. \<not> is_header l) lines)))"




text \<open>Section 4.5: the name after the lookup in the remap table, when one was loaded.\<close>

definition remap_name :: "(string \<rightharpoonup> string) option \<Rightarrow> string \<Rightarrow> string" where
  "remap_name table raw =
     (case table of
        None \<Rightarrow> raw
      | Some m \<Rightarrow> (case m raw of None \<Rightarrow> raw | Some canonical \<Rightarrow> canonical))"

subsection \<open>Example inputs\<close>

text \<open>The remap table of section 8, and configurations with and without a tag name.\<close>

definition example_chrMap :: "string \<rightharpoonup> string" where
  "example_chrMap = [''chrI'' \<mapsto> ''chr1'']"

definition example_free_config :: "nat \<Rightarrow> config" where
  "example_free_config padding =
     \<lparr>pieceNameTerminatorCharacters = None, spaceIsAPieceNameTerminator = True,
      chromosomePaddingSize = padding, chrTag = None, chrMap = Some example_chrMap,
      altMap = False\<rparr>"

definition example_tag_config :: "nat \<Rightarrow> config" where
  "example_tag_config padding =
     \<lparr>pieceNameTerminatorCharacters = None, spaceIsAPieceNameTerminator = True,
      chromosomePaddingSize = padding, chrTag = Some ''ref'', chrMap = Some example_chrMap,
      altMap = False\<rparr>"

definition example_state :: loader where
  "example_state = \<lparr>calls = [], warnings = [], warningIssued = False, inAContig = False\<rparr>"

section \<open>Properties\<close>

subsection \<open>The normalisation\<close>

lemma check_bases_out: "fst (check_bases w s) = map (base_of \<circ> lower_N) s"
  by (induction s arbitrary: w) (simp_all add: base_of_def lower_N_def split_beta Let_def)

lemma check_bases_flag:
  "fst (snd (check_bases w s)) = (w \<or> (\<exists>c \<in> set s. \<not> isValidGenomeCharacter (lower_N c)))"
  by (induction s arbitrary: w) (simp_all add: lower_N_def split_beta Let_def)

lemma check_bases_warnings:
  "snd (snd (check_bases w s)) =
     (if w then [] else take 1 (filter (\<lambda>c. \<not> isValidGenomeCharacter c) (map lower_N s)))"
  by (induction s arbitrary: w) (simp_all add: lower_N_def split_beta Let_def)

lemma normalize_eq: "normalize_bases line = map (base_of \<circ> lower_N \<circ> toupper) line"
  by (simp add: normalize_bases_def normalize_line_def check_bases_out)

lemma toupper_not_lower: "toupper c \<notin> set ''atcgn''"
  by (simp add: toupper_def)

lemma base_char_cases:
  "(base_of \<circ> lower_N \<circ> toupper) c \<in> set ''ATCGnN''"
  using toupper_not_lower [of c]
  by (simp add: base_of_def lower_N_def isValidGenomeCharacter_def)

lemma in_set_bases:
  "c \<in> set ''ATCGnN'' \<Longrightarrow>
     c = CHR ''A'' \<or> c = CHR ''T'' \<or> c = CHR ''C'' \<or> c = CHR ''G'' \<or> c = CHR ''n'' \<or> c = CHR ''N''"
  by simp

lemma renormalize_char:
  assumes "c \<in> set ''ATCGnN''"
  shows "(base_of \<circ> lower_N \<circ> toupper) c = lower_N c"
  using in_set_bases [OF assms]
  by (elim disjE; simp add: base_of_def lower_N_def isValidGenomeCharacter_def toupper_def)

lemma normalize_char_fixed:
  assumes "c \<in> set ''ATCGn''"
  shows "(base_of \<circ> lower_N \<circ> toupper) c = c"
proof -
  have "c = CHR ''A'' \<or> c = CHR ''T'' \<or> c = CHR ''C'' \<or> c = CHR ''G'' \<or> c = CHR ''n''"
    using assms by simp
  then show ?thesis
    by (elim disjE; simp add: base_of_def lower_N_def isValidGenomeCharacter_def toupper_def)
qed

text \<open>
  Claim C5, as the code has it: a second normalisation turns every \<open>N\<close> that the first one
  stored for an invalid character into \<open>n\<close> and changes nothing else; on a sequence over
  A, T, C, G, n the normalisation is the identity.
\<close>

theorem normalize_twice:
  "normalize_bases (normalize_bases s) = map lower_N (normalize_bases s)
   \<and> (set s \<subseteq> set ''ATCGn'' \<longrightarrow> normalize_bases s = s)"
proof
  have "map (base_of \<circ> lower_N \<circ> toupper) (normalize_bases s) = map lower_N (normalize_bases s)"
  proof (rule map_cong [OF refl])
    fix c assume "c \<in> set (normalize_bases s)"
    then obtain d where "c = (base_of \<circ> lower_N \<circ> toupper) d"
      unfolding normalize_eq by auto
    then have "c \<in> set ''ATCGnN''"
      using base_char_cases [of d] by simp
    then show "(base_of \<circ> lower_N \<circ> toupper) c = lower_N c"
      by (rule renormalize_char)
  qed
  then show "normalize_bases (normalize_bases s) = map lower_N (normalize_bases s)"
    by (simp only: normalize_eq [of "normalize_bases s"])
next
  show "set s \<subseteq> set ''ATCGn'' \<longrightarrow> normalize_bases s = s"
  proof
    assume a: "set s \<subseteq> set ''ATCGn''"
    have "map (base_of \<circ> lower_N \<circ> toupper) s = map id s"
    proof (rule map_cong [OF refl])
      fix c assume "c \<in> set s"
      then have "c \<in> set ''ATCGn''" using a by blast
      then show "(base_of \<circ> lower_N \<circ> toupper) c = id c"
        using normalize_char_fixed [of c] by simp
    qed
    then show "normalize_bases s = s" by (simp add: normalize_eq)
  qed
qed

theorem normalize_twice_witness:
  "normalize_bases (normalize_bases ''acgtn'') = map lower_N (normalize_bases ''acgtn'')
   \<and> set ''ACGTn'' \<subseteq> set ''ATCGn'' \<and> normalize_bases ''ACGTn'' = ''ACGTn''"
proof -
  have s: "set ''ACGTn'' \<subseteq> set ''ATCGn''" by simp
  have a: "normalize_bases (normalize_bases ''acgtn'') = map lower_N (normalize_bases ''acgtn'')"
    using normalize_twice [of "''acgtn''"] by (rule conjunct1)
  have b: "normalize_bases ''ACGTn'' = ''ACGTn''"
    using normalize_twice [of "''ACGTn''"] s by (simp only: simp_thms)
  show ?thesis using s a b by (intro conjI)
qed

text \<open>
  Claim C5 as the specification states it fails: the \<open>N\<close> stored for the invalid \<open>Z\<close> is itself
  rewritten to \<open>n\<close> by a second pass.
\<close>

theorem normalize_not_idempotent:
  "normalize_bases (normalize_bases ''Z'') \<noteq> normalize_bases ''Z''"
  by (simp add: normalize_bases_def normalize_line_def toupper_def isValidGenomeCharacter_def)

subsection \<open>The free-form contig name\<close>

lemma strchr_takeWhile:
  "strchr s c = (if c \<in> set s then Some (length (takeWhile (\<lambda>x. x \<noteq> c) s)) else None)"
  by (induction s) auto

lemma takeWhile_True: "takeWhile (\<lambda>x. True) s = s"
  by (induction s) auto

lemma min_takeWhile:
  "min (length (takeWhile P s)) (length (takeWhile (\<lambda>x. x \<noteq> c) s))
     = length (takeWhile (\<lambda>x. x \<noteq> c \<and> P x) s)"
  by (induction s) auto

lemma length_takeWhile_notin: "c \<notin> set s \<Longrightarrow> length (takeWhile (\<lambda>x. x \<noteq> c) s) = length s"
  by (induction s) auto

lemma nearer_strchr:
  "nearer (map_option Suc (strchr s c)) (Suc (length (takeWhile P s)))
     = Suc (length (takeWhile (\<lambda>x. x \<noteq> c \<and> P x) s))"
proof -
  have le: "length (takeWhile P s) \<le> length s"
    by (rule length_takeWhile_le)
  show ?thesis
    using le min_takeWhile [of P s c] length_takeWhile_notin [of c s]
    by (auto simp: nearer_def strchr_takeWhile min_def split: if_splits)
qed

lemma strchr_from_header:
  "strchr_from (x # s) 1 c = map_option Suc (strchr s c)"
  by (simp add: strchr_from_def option.map_comp comp_def)

lemma fold_nearer:
  "fold (\<lambda>c t. nearer (strchr_from (x # s) 1 c) t) cs (Suc (length (takeWhile P s)))
     = Suc (length (takeWhile (\<lambda>x. x \<notin> set cs \<and> P x) s))"
proof (induction cs arbitrary: P)
  case Nil
  then show ?case by simp
next
  case (Cons c cs)
  have "fold (\<lambda>c t. nearer (strchr_from (x # s) 1 c) t) (c # cs) (Suc (length (takeWhile P s)))
      = fold (\<lambda>c t. nearer (strchr_from (x # s) 1 c) t) cs
          (Suc (length (takeWhile (\<lambda>x. x \<noteq> c \<and> P x) s)))"
    by (simp only: fold_simps strchr_from_header nearer_strchr)
  also have "\<dots> = Suc (length (takeWhile (\<lambda>x. x \<notin> set cs \<and> (x \<noteq> c \<and> P x)) s))"
    by (rule Cons.IH)
  also have "(\<lambda>x. x \<notin> set cs \<and> (x \<noteq> c \<and> P x)) = (\<lambda>x. x \<notin> set (c # cs) \<and> P x)"
    by auto
  finally show ?case .
qed

lemma is_header_Cons: "is_header l = (\<exists>s. l = CHR ''>'' # s)"
  by (cases l) (auto simp: is_header_def char_at_def)

lemma free_form_name_header:
  "free_form_name pntc space (CHR ''>'' # s)
     = takeWhile (\<lambda>c. c \<notin> name_terminators pntc space) s"
proof -
  let ?l = "CHR ''>'' # s"
  let ?tw = "\<lambda>P. Suc (length (takeWhile P s))"
  define P1 where "P1 = (\<lambda>x. x \<notin> (case pntc of None \<Rightarrow> {} | Some cs \<Rightarrow> set cs))"
  define P2 where "P2 = (\<lambda>x. if space then x \<noteq> TAB \<and> (x \<noteq> CHR '' '' \<and> P1 x) else P1 x)"
  define t1 where "t1 = (case pntc of None \<Rightarrow> length ?l
       | Some cs \<Rightarrow> fold (\<lambda>c t. nearer (strchr_from ?l 1 c) t) cs (length ?l))"
  define t2 where "t2 = (if space
       then nearer (strchr ?l TAB) (nearer (strchr ?l CHR '' '') t1)
       else t1)"
  define t3 where "t3 = nearer (strchr ?l NL) t2"
  define t4 where "t4 = nearer (strchr ?l CR) t3"
  have h: "\<And>c. c \<noteq> CHR ''>'' \<Longrightarrow> strchr ?l c = map_option Suc (strchr s c)"
    by simp
  have e1: "t1 = ?tw P1"
  proof (cases pntc)
    case None
    then show ?thesis by (simp add: t1_def P1_def takeWhile_True)
  next
    case (Some cs)
    have "t1 = fold (\<lambda>c t. nearer (strchr_from ?l 1 c) t) cs (?tw (\<lambda>x. True))"
      by (simp add: t1_def Some takeWhile_True)
    also have "\<dots> = ?tw (\<lambda>x. x \<notin> set cs \<and> True)"
      by (rule fold_nearer)
    finally show ?thesis by (simp add: P1_def Some)
  qed
  have e2: "t2 = ?tw P2"
  proof (cases space)
    case True
    have "t2 = nearer (map_option Suc (strchr s TAB))
                 (nearer (map_option Suc (strchr s CHR '' '')) (?tw P1))"
      by (simp add: t2_def True e1)
    also have "\<dots> = ?tw (\<lambda>x. x \<noteq> TAB \<and> (x \<noteq> CHR '' '' \<and> P1 x))"
      by (simp only: nearer_strchr)
    finally show ?thesis by (simp add: P2_def True)
  next
    case False
    then show ?thesis by (simp add: t2_def e1 P2_def)
  qed
  have e3: "t3 = ?tw (\<lambda>x. x \<noteq> NL \<and> P2 x)"
    unfolding t3_def e2 by (simp only: h char.inject simp_thms nearer_strchr)
  have e4: "t4 = ?tw (\<lambda>x. x \<noteq> CR \<and> (x \<noteq> NL \<and> P2 x))"
    unfolding t4_def e3 by (simp only: h char.inject simp_thms nearer_strchr)
  have T: "(\<lambda>x. x \<noteq> CR \<and> (x \<noteq> NL \<and> P2 x)) = (\<lambda>c. c \<notin> name_terminators pntc space)"
    by (auto simp: name_terminators_def P2_def P1_def split: option.splits)
  have "free_form_name pntc space ?l = take (t4 - 1) s"
    by (simp add: free_form_name_def Let_def t1_def t2_def t3_def t4_def cong: option.case_cong)
  also have "\<dots> = takeWhile (\<lambda>x. x \<noteq> CR \<and> (x \<noteq> NL \<and> P2 x)) s"
    unfolding e4 by (simp add: takeWhile_eq_take [symmetric])
  finally show ?thesis unfolding T .
qed

text \<open>
  Claim C6: without a tag name, the name of a header line is the text after the marker up
  to the first character that is in the terminator set, or is a space or a tab when these
  are terminators, or is a newline or carriage return; the whole rest when there is none.
\<close>

theorem free_form_contig_name:
  assumes "chrTag cfg = None" and "is_header lineBuffer"
  shows "contigName cfg lineBuffer =
           Inr (takeWhile (\<lambda>c. c \<notin> name_terminators (pieceNameTerminatorCharacters cfg)
                                      (spaceIsAPieceNameTerminator cfg)) (drop 1 lineBuffer))"
proof -
  obtain s where s: "lineBuffer = CHR ''>'' # s"
    using assms(2) by (auto simp: is_header_Cons)
  show ?thesis
    using assms(1) by (simp add: contigName_def s free_form_name_header)
qed

theorem free_form_contig_name_witness:
  "chrTag \<lparr>pieceNameTerminatorCharacters = Some ''|:'', spaceIsAPieceNameTerminator = True,
       chromosomePaddingSize = 2, chrTag = None, chrMap = None, altMap = False\<rparr> = None
   \<and> is_header ''>chr1 a:b\<newline>''
   \<and> contigName \<lparr>pieceNameTerminatorCharacters = Some ''|:'', spaceIsAPieceNameTerminator = True,
       chromosomePaddingSize = 2, chrTag = None, chrMap = None, altMap = False\<rparr>
         ''>chr1 a:b\<newline>'' = Inr ''chr1''"
  using free_form_contig_name [of "\<lparr>pieceNameTerminatorCharacters = Some ''|:'',
       spaceIsAPieceNameTerminator = True, chromosomePaddingSize = 2, chrTag = None,
       chrMap = None, altMap = False\<rparr>" "''>chr1 a:b\<newline>''"]
  by (simp add: is_header_def char_at_def name_terminators_def)

subsection \<open>Tag values and the remap table\<close>

lemma tag_value_example:
  "FindFASTATagValue ''>gi|123|ref|XYZ.1|\<newline>'' ''ref'' = TagValue ''XYZ.1''
   \<and> FindFASTATagValue ''>gi|123|ref|XYZ.1|\<newline>'' ''nope'' = TagNotFound"
  by code_simp

text \<open>
  Claim C4 at the line \<open>>xref|abc|\<close> with the tag \<open>ref\<close>: the only occurrence of the tag
  has an \<open>x\<close> on its left, so no occurrence is delimited on both sides, yet the loop of
  line 266 stops at it, because it goes on only when all three tests fail, and the tag
  is reported as found with the value \<open>abc\<close>.
\<close>

theorem tag_found_without_left_delimiter:
  "FindFASTATagValue ''>xref|abc|\<newline>'' ''ref'' = TagValue ''abc''
   \<and> \<not> has_delimited_tag ''>xref|abc|\<newline>'' ''ref''"
  by code_simp

lemma process_header:
  assumes "is_header l" and "contigName cfg l = Inr n"
  shows "\<exists>st'. process_line cfg st l = Done st' \<and> last (calls st') = StartContig n"
  using assms by (simp add: process_line_def Let_def)

text \<open>
  Claim C3, as the code has it: the remap table is consulted in the tag branch only.
  With a tag name, the value of the tag is looked up and replaced when the table has
  it; without one, the free-form name is stored as it is, whatever the table holds.
\<close>

theorem stored_contig_name:
  assumes "is_header l"
  shows "(chrTag cfg = Some tagName \<longrightarrow> FindFASTATagValue l tagName = TagValue raw \<longrightarrow>
            (\<exists>st'. process_line cfg st l = Done st'
                   \<and> last (calls st') = StartContig (remap_name (chrMap cfg) raw)))
       \<and> (chrTag cfg = None \<longrightarrow>
            (\<exists>st'. process_line cfg st l = Done st'
                   \<and> last (calls st') =
                       StartContig (free_form_name (pieceNameTerminatorCharacters cfg)
                                      (spaceIsAPieceNameTerminator cfg) l)))"
proof (intro conjI impI)
  assume "chrTag cfg = Some tagName" and "FindFASTATagValue l tagName = TagValue raw"
  then have "contigName cfg l = Inr (remap_name (chrMap cfg) raw)"
    by (simp add: contigName_def remap_name_def split: option.splits)
  then show "\<exists>st'. process_line cfg st l = Done st'
                   \<and> last (calls st') = StartContig (remap_name (chrMap cfg) raw)"
    by (rule process_header [OF assms])
next
  assume "chrTag cfg = None"
  then have "contigName cfg l = Inr (free_form_name (pieceNameTerminatorCharacters cfg)
                                      (spaceIsAPieceNameTerminator cfg) l)"
    by (simp add: contigName_def)
  then show "\<exists>st'. process_line cfg st l = Done st'
                   \<and> last (calls st') =
                       StartContig (free_form_name (pieceNameTerminatorCharacters cfg)
                                      (spaceIsAPieceNameTerminator cfg) l)"
    by (rule process_header [OF assms])
qed

lemma example_tag_value: "FindFASTATagValue ''>gi|1|ref|chrI|\<newline>'' ''ref'' = TagValue ''chrI''"
  by code_simp

lemma example_header: "is_header ''>gi|1|ref|chrI|\<newline>'' \<and> is_header ''>chrI\<newline>''"
  by (simp add: is_header_def char_at_def)

theorem stored_contig_name_witness:
  "is_header ''>gi|1|ref|chrI|\<newline>''
   \<and> chrTag (example_tag_config 2) = Some ''ref''
   \<and> FindFASTATagValue ''>gi|1|ref|chrI|\<newline>'' ''ref'' = TagValue ''chrI''
   \<and> (\<exists>st'. process_line (example_tag_config 2) example_state ''>gi|1|ref|chrI|\<newline>'' = Done st'
            \<and> last (calls st') = StartContig ''chr1'')
   \<and> is_header ''>chrI\<newline>''
   \<and> chrTag (example_free_config 2) = None
   \<and> (\<exists>st'. process_line (example_free_config 2) example_state ''>chrI\<newline>'' = Done st'
            \<and> last (calls st') = StartContig ''chrI'')"
proof -
  have t: "chrTag (example_tag_config 2) = Some ''ref''"
    by (simp add: example_tag_config_def)
  have f: "chrTag (example_free_config 2) = None"
    by (simp add: example_free_config_def)
  have r: "remap_name (chrMap (example_tag_config 2)) ''chrI'' = ''chr1''"
    by (simp add: example_tag_config_def remap_name_def example_chrMap_def)
  have n: "free_form_name (pieceNameTerminatorCharacters (example_free_config 2))
             (spaceIsAPieceNameTerminator (example_free_config 2)) ''>chrI\<newline>'' = ''chrI''"
    by code_simp
  have a: "\<exists>st'. process_line (example_tag_config 2) example_state ''>gi|1|ref|chrI|\<newline>'' = Done st'
            \<and> last (calls st') = StartContig ''chr1''"
    using stored_contig_name [of "''>gi|1|ref|chrI|\<newline>''" "example_tag_config 2" "''ref''"
        "''chrI''" example_state] example_header example_tag_value t r
    by simp
  have b: "\<exists>st'. process_line (example_free_config 2) example_state ''>chrI\<newline>'' = Done st'
            \<and> last (calls st') = StartContig ''chrI''"
    using stored_contig_name [of "''>chrI\<newline>''" "example_free_config 2" "''ref''"
        "''chrI''" example_state] example_header f n
    by simp
  show ?thesis
    using example_header t example_tag_value a f b by simp
qed

text \<open>
  Claim C3 as the specification states it fails without a tag name: the table maps
  \<open>chrI\<close> to \<open>chr1\<close>, and the header \<open>>chrI\<close> is still stored as \<open>chrI\<close>.
\<close>

theorem free_form_name_not_remapped:
  "free_form_name (pieceNameTerminatorCharacters (example_free_config 2))
     (spaceIsAPieceNameTerminator (example_free_config 2)) ''>chrI\<newline>'' = ''chrI''
   \<and> remap_name (chrMap (example_free_config 2)) ''chrI'' = ''chr1''
   \<and> last (calls (final_state (process_line (example_free_config 2) example_state ''>chrI\<newline>'')))
     \<noteq> StartContig (remap_name (chrMap (example_free_config 2)) ''chrI'')"
  by (simp add: process_line_def is_header_def char_at_def contigName_def example_free_config_def
      example_state_def free_form_name_def nearer_def strchr_from_def paddingBuffer_def
      remap_name_def example_chrMap_def Let_def)

subsection \<open>The main loop\<close>

lemma normalize_line_out: "fst (normalize_line w s) = normalize_bases s"
  by (simp add: normalize_bases_def normalize_line_def check_bases_out)

lemma normalize_line_outD: "normalize_line w s = (out, w', ms) \<Longrightarrow> out = normalize_bases s"
  using normalize_line_out [of w s] by simp

lemma stored_name_Inr: "contigName cfg l = Inr n \<Longrightarrow> stored_name cfg l = n"
  by (simp add: stored_name_def)

lemma process_line_calls:
  "process_line cfg st l = Done st' \<Longrightarrow> calls st' = calls st @ line_calls cfg l"
  by (auto simp: process_line_def line_calls_def Let_def stored_name_Inr
        split: if_splits sum.splits prod.splits dest: normalize_line_outD)

lemma process_line_inAContig:
  "process_line cfg st l = Done st' \<Longrightarrow> inAContig st'"
  by (auto simp: process_line_def Let_def split: if_splits sum.splits prod.splits)

lemma load_loop_calls:
  "load_loop cfg st ls = Done st' \<Longrightarrow> calls st' = calls st @ concat (map (line_calls cfg) ls)"
proof (induction ls arbitrary: st)
  case Nil
  then show ?case by simp
next
  case (Cons l ls)
  from Cons.prems obtain st1 where p: "process_line cfg st l = Done st1"
    and r: "load_loop cfg st1 ls = Done st'"
    by (auto split: outcome.splits)
  show ?case
    using Cons.IH [OF r] process_line_calls [OF p] by simp
qed

lemma appended_append: "appended (xs @ ys) = appended xs @ appended ys"
  by (induction xs rule: appended.induct) auto

lemma appended_line_calls: "appended (line_calls cfg l) = line_bases cfg l"
  by (simp add: line_calls_def line_bases_def)

lemma appended_concat_line_calls:
  "appended (concat (map (line_calls cfg) ls)) = concat (map (line_bases cfg) ls)"
  by (induction ls) (simp_all add: appended_append appended_line_calls)

lemma ReadFASTALines_calls:
  assumes "ReadFASTALines cfg fileSize lines = Done st"
  shows "calls st =
           calls (initial_state cfg fileSize lines)
           @ concat (map (line_calls cfg) lines)
           @ [AddData (paddingBuffer cfg), FillInContigLengths]
           @ (if altMap cfg then [AdjustAltContigs] else [])
           @ [SortContigsByName]"
  using assms
  by (auto simp: ReadFASTALines_def split: outcome.splits dest!: load_loop_calls)

lemma initial_state_flags:
  "\<not> inAContig (initial_state cfg fileSize lines)
   \<and> \<not> warningIssued (initial_state cfg fileSize lines)
   \<and> warnings (initial_state cfg fileSize lines) = []"
  unfolding initial_state_def Let_def by simp

lemma appended_initial: "appended (calls (initial_state cfg fileSize lines)) = []"
  unfolding initial_state_def Let_def by simp

lemma ReadFASTALines_appended:
  assumes "ReadFASTALines cfg fileSize lines = Done st"
  shows "appended (calls st) = concat (map (line_bases cfg) lines) @ paddingBuffer cfg"
  by (simp add: ReadFASTALines_calls [OF assms] appended_append appended_concat_line_calls
        appended_initial)

subsection \<open>Warnings\<close>

lemma normalize_line_flag:
  "fst (snd (normalize_line w (truncate_newline l)))
     = (w \<or> filter (\<lambda>c. \<not> isValidGenomeCharacter c) (prepared l) \<noteq> [])"
  by (simp add: normalize_line_def check_bases_flag prepared_def filter_empty_conv)

lemma normalize_line_warnings:
  "snd (snd (normalize_line w (truncate_newline l)))
     = (if w then [] else take 1 (filter (\<lambda>c. \<not> isValidGenomeCharacter c) (prepared l)))"
  by (simp add: normalize_line_def check_bases_warnings prepared_def)

lemma process_line_warnings:
  assumes "process_line cfg st l = Done st'"
  shows "warnings st' = warnings st @ (if warningIssued st then [] else take 1 (rejected_chars [l]))
       \<and> warningIssued st' = (warningIssued st \<or> rejected_chars [l] \<noteq> [])"
proof (cases "is_header l")
  case True
  then show ?thesis
    using assms
    by (auto simp: process_line_def Let_def rejected_chars_def split: sum.splits)
next
  case False
  obtain out w ms where n: "normalize_line (warningIssued st) (truncate_newline l) = (out, w, ms)"
    by (cases "normalize_line (warningIssued st) (truncate_newline l)") auto
  have w: "w = (warningIssued st \<or> filter (\<lambda>c. \<not> isValidGenomeCharacter c) (prepared l) \<noteq> [])"
    using normalize_line_flag [of "warningIssued st" l] n by simp
  have ms: "ms = (if warningIssued st then []
                 else take 1 (filter (\<lambda>c. \<not> isValidGenomeCharacter c) (prepared l)))"
    using normalize_line_warnings [of "warningIssued st" l] n by simp
  have "st' = st\<lparr>calls := calls st @ [AddData out], warningIssued := w,
                  warnings := warnings st @ ms\<rparr>"
    using assms False n by (simp add: process_line_def split: if_splits)
  then show ?thesis
    using False w ms by (simp add: rejected_chars_def)
qed

lemma rejected_chars_Cons: "rejected_chars (l # ls) = rejected_chars [l] @ rejected_chars ls"
  by (simp add: rejected_chars_def)

lemma take1_append: "take (Suc 0) (xs @ ys) = (if xs = [] then take (Suc 0) ys else take (Suc 0) xs)"
  by (cases xs) auto

lemma load_loop_warnings:
  "load_loop cfg st ls = Done st' \<Longrightarrow>
     warnings st' = warnings st @ (if warningIssued st then [] else take 1 (rejected_chars ls))
     \<and> warningIssued st' = (warningIssued st \<or> rejected_chars ls \<noteq> [])"
proof (induction ls arbitrary: st)
  case Nil
  then show ?case by (simp add: rejected_chars_def)
next
  case (Cons l ls)
  from Cons.prems obtain st1 where p: "process_line cfg st l = Done st1"
    and r: "load_loop cfg st1 ls = Done st'"
    by (auto split: outcome.splits)
  show ?case
    using Cons.IH [OF r] process_line_warnings [OF p]
    by (auto simp add: rejected_chars_Cons [of l ls] take1_append Suc_le_eq)
qed

subsection \<open>Runs that end early and runs that complete\<close>

lemma process_line_Exit:
  "process_line cfg st l = Exit e st' \<Longrightarrow>
     (\<not> is_header l \<and> \<not> inAContig st \<and> e = NoContigName \<and> st' = st)
     \<or> (is_header l \<and> contigName cfg l = Inl e
         \<and> appended (calls st') = appended (calls st) @ paddingBuffer cfg)"
  by (auto simp: process_line_def Let_def appended_append split: if_splits sum.splits prod.splits)

lemma process_line_Done:
  assumes "is_header l \<longrightarrow> (\<exists>n. contigName cfg l = Inr n)"
    and "is_header l \<or> inAContig st"
  shows "\<exists>st'. process_line cfg st l = Done st'"
  using assms by (auto simp: process_line_def Let_def split: prod.splits)

lemma load_loop_Done:
  assumes "\<forall>l \<in> set ls. is_header l \<longrightarrow> (\<exists>n. contigName cfg l = Inr n)"
    and "inAContig st \<or> ls = [] \<or> is_header (hd ls)"
  shows "\<exists>st'. load_loop cfg st ls = Done st'"
  using assms
proof (induction ls arbitrary: st)
  case Nil
  then show ?case by simp
next
  case (Cons l ls)
  have h: "is_header l \<or> inAContig st"
    using Cons.prems(2) by auto
  obtain st1 where p: "process_line cfg st l = Done st1"
    using process_line_Done [of l cfg st] Cons.prems(1) h by auto
  have "\<exists>st'. load_loop cfg st1 ls = Done st'"
    using Cons.IH [of st1] Cons.prems(1) process_line_inAContig [OF p] by simp
  then show ?case using p by simp
qed

lemma load_loop_no_header:
  assumes "\<not> is_header l" and "\<not> inAContig st"
  shows "load_loop cfg st (l # ls) = Exit NoContigName st"
  using assms by (simp add: process_line_def)

subsection \<open>Bounds on what is appended\<close>

lemma set_normalize_bases: "set (normalize_bases s) \<subseteq> set ''ATCGnN''"
proof
  fix c assume "c \<in> set (normalize_bases s)"
  then obtain d where "c = (base_of \<circ> lower_N \<circ> toupper) d"
    unfolding normalize_eq by auto
  then show "c \<in> set ''ATCGnN''"
    using base_char_cases [of d] by simp
qed

lemma set_line_bases: "set (line_bases cfg l) \<subseteq> set ''ATCGnN''"
  using set_normalize_bases [of "truncate_newline l"]
  by (auto simp: line_bases_def paddingBuffer_def)

lemma length_normalize_bases: "length (normalize_bases s) = length s"
  by (simp add: normalize_eq)

lemma process_line_final:
  "\<exists>d. appended (calls (final_state (process_line cfg st l))) = appended (calls st) @ d
       \<and> set d \<subseteq> set ''ATCGnN'' \<and> length d \<le> length (line_bases cfg l)"
proof (cases "process_line cfg st l")
  case (Done st')
  have "appended (calls st') = appended (calls st) @ line_bases cfg l"
    using process_line_calls [OF Done] by (simp add: appended_append appended_line_calls)
  then show ?thesis
    using Done set_line_bases [of cfg l] by auto
next
  case (Exit e st')
  from process_line_Exit [OF Exit] show ?thesis
  proof
    assume "\<not> is_header l \<and> \<not> inAContig st \<and> e = NoContigName \<and> st' = st"
    then show ?thesis using Exit by simp
  next
    assume a: "is_header l \<and> contigName cfg l = Inl e
         \<and> appended (calls st') = appended (calls st) @ paddingBuffer cfg"
    then have "line_bases cfg l = paddingBuffer cfg" by (simp add: line_bases_def)
    then show ?thesis
      using Exit a set_line_bases [of cfg l] by auto
  qed
qed

lemma load_loop_final:
  "\<exists>d. appended (calls (final_state (load_loop cfg st ls))) = appended (calls st) @ d
       \<and> set d \<subseteq> set ''ATCGnN''
       \<and> length d \<le> length (concat (map (line_bases cfg) ls))"
proof (induction ls arbitrary: st)
  case Nil
  then show ?case by simp
next
  case (Cons l ls)
  obtain d where d: "appended (calls (final_state (process_line cfg st l))) = appended (calls st) @ d"
    "set d \<subseteq> set ''ATCGnN''" "length d \<le> length (line_bases cfg l)"
    using process_line_final [of cfg st l] by blast
  show ?case
  proof (cases "process_line cfg st l")
    case (Done st1)
    obtain d' where d': "appended (calls (final_state (load_loop cfg st1 ls))) = appended (calls st1) @ d'"
      "set d' \<subseteq> set ''ATCGnN''" "length d' \<le> length (concat (map (line_bases cfg) ls))"
      using Cons.IH [of st1] by blast
    have "appended (calls (final_state (load_loop cfg st (l # ls)))) = appended (calls st) @ (d @ d')"
      using Done d(1) d'(1) by simp
    moreover have "set (d @ d') \<subseteq> set ''ATCGnN''"
      using d(2) d'(2) by simp
    moreover have "length (d @ d') \<le> length (concat (map (line_bases cfg) (l # ls)))"
      using d(3) d'(3) by simp
    ultimately show ?thesis by blast
  next
    case (Exit e st1)
    have "appended (calls (final_state (load_loop cfg st (l # ls)))) = appended (calls st) @ d"
      using Exit d(1) by simp
    moreover have "length d \<le> length (concat (map (line_bases cfg) (l # ls)))"
      using d(3) by simp
    ultimately show ?thesis using d(2) by blast
  qed
qed

lemma ReadFASTALines_final:
  "\<exists>d. appended (calls (final_state (ReadFASTALines cfg fileSize lines))) = d
       \<and> set d \<subseteq> set ''ATCGnN''
       \<and> length d \<le> length (concat (map (line_bases cfg) lines)) + chromosomePaddingSize cfg"
proof -
  let ?st0 = "initial_state cfg fileSize lines"
  obtain d where d: "appended (calls (final_state (load_loop cfg ?st0 lines))) = appended (calls ?st0) @ d"
    "set d \<subseteq> set ''ATCGnN''" "length d \<le> length (concat (map (line_bases cfg) lines))"
    using load_loop_final [of cfg ?st0 lines] by blast
  show ?thesis
  proof (cases "load_loop cfg ?st0 lines")
    case (Done st)
    have "appended (calls (final_state (ReadFASTALines cfg fileSize lines))) = d @ paddingBuffer cfg"
      using Done d(1) by (simp add: ReadFASTALines_def appended_append appended_initial)
    then show ?thesis
      using d(2,3) by (auto simp: paddingBuffer_def)
  next
    case (Exit e st)
    have "appended (calls (final_state (ReadFASTALines cfg fileSize lines))) = d"
      using Exit d(1) by (simp add: ReadFASTALines_def appended_initial)
    then show ?thesis
      using d(2,3) by auto
  qed
qed

subsection \<open>The claims about a whole load\<close>


lemma length_concat_line_bases:
  "length (concat (map (line_bases cfg) ls))
     = sum_list (map (\<lambda>l. length (truncate_newline l)) (filter (\<lambda>l. \<not> is_header l) ls))
       + chromosomePaddingSize cfg * length (filter is_header ls)"
  by (induction ls) (auto simp: line_bases_def paddingBuffer_def length_normalize_bases)

lemma truncate_newline_takeWhile: "truncate_newline l = takeWhile (\<lambda>c. c \<noteq> NL) l"
proof (cases "NL \<in> set l")
  case True
  then show ?thesis
    by (simp add: truncate_newline_def strchr_takeWhile takeWhile_eq_take [symmetric])
next
  case False
  have "\<And>s. NL \<notin> set s \<Longrightarrow> s = takeWhile (\<lambda>c. c \<noteq> NL) s"
    by (rule sym, rule takeWhile_eq_all_conv [THEN iffD2]) auto
  then show ?thesis
    using False by (simp add: truncate_newline_def strchr_takeWhile)
qed


lemma newline_at_end:
  "NL \<notin> set (butlast l) \<Longrightarrow> takeWhile (\<lambda>c. c \<noteq> NL) l = filter (\<lambda>c. c \<noteq> NL) l"
  by (induction l) (auto split: if_splits)

lemma line_chars_sequence:
  assumes "NL \<notin> set (butlast l)" and "CR \<notin> set l"
  shows "length (truncate_newline l) = line_chars l"
proof -
  have "filter (\<lambda>c. c \<noteq> NL \<and> c \<noteq> CR) l = filter (\<lambda>c. c \<noteq> NL) l"
    using assms(2) by (intro filter_cong [OF refl]) auto
  then show ?thesis
    by (simp add: truncate_newline_takeWhile newline_at_end [OF assms(1)] line_chars_def)
qed






lemma ReadFASTALines_Done:
  assumes "\<forall>l \<in> set lines. is_header l \<longrightarrow> (\<exists>n. contigName cfg l = Inr n)"
    and "lines = [] \<or> is_header (hd lines)"
  shows "\<exists>st. ReadFASTALines cfg fileSize lines = Done st"
proof -
  let ?st0 = "initial_state cfg fileSize lines"
  obtain st1 where "load_loop cfg ?st0 lines = Done st1"
    using load_loop_Done [of lines cfg ?st0] assms by auto
  then show ?thesis by (simp add: ReadFASTALines_def)
qed

lemma free_form_contigName: "chrTag cfg = None \<Longrightarrow> \<exists>n. contigName cfg l = Inr n"
  by (simp add: contigName_def)

text \<open>
  Claim C1, as the code has it: for an input that begins with a header line, in which
  every header line yields a name (as every header does when no tag name is configured;
  with one, a header without the tag is a fatal exit) and whose sequence lines hold no
  carriage return and a newline only at their end, the load completes and the number of
  bytes passed to \<open>addData\<close> is the sum of the lengths of the sequence lines, terminators
  left out, plus the padding size times the number of contigs plus one.
\<close>

theorem total_appended_bases:
  assumes "lines \<noteq> []" and "is_header (hd lines)"
    and "\<forall>l \<in> set lines. is_header l \<longrightarrow> (\<exists>n. contigName cfg l = Inr n)"
    and "\<forall>l \<in> set lines. \<not> is_header l \<longrightarrow> NL \<notin> set (butlast l) \<and> CR \<notin> set l"
  shows "\<exists>st. ReadFASTALines cfg fileSize lines = Done st
           \<and> length (appended (calls st)) = claimed_total cfg lines"
proof -
  obtain st where st: "ReadFASTALines cfg fileSize lines = Done st"
    using ReadFASTALines_Done [of lines cfg fileSize] assms(2,3) by blast
  have s: "sum_list (map (\<lambda>l. length (truncate_newline l)) (filter (\<lambda>l. \<not> is_header l) lines))
         = sum_list (map line_chars (filter (\<lambda>l. \<not> is_header l) lines))"
    using assms(4)
    by (intro arg_cong [where f = sum_list] map_cong [OF refl]) (simp add: line_chars_sequence)
  have "length (appended (calls st))
          = length (concat (map (line_bases cfg) lines)) + chromosomePaddingSize cfg"
    by (simp add: ReadFASTALines_appended [OF st] paddingBuffer_def)
  then have "length (appended (calls st)) = claimed_total cfg lines"
    by (simp add: length_concat_line_bases s claimed_total_def)
  then show ?thesis
    using st by simp
qed

theorem total_appended_bases_witness:
  "\<exists>st. ReadFASTALines (example_free_config 2) 21
           [''>c1\<newline>'', ''acgt\<newline>'', ''NZ\<newline>'', ''>c2\<newline>'', ''A''] = Done st
        \<and> length (appended (calls st)) = 13"
proof -
  let ?ls = "[''>c1\<newline>'', ''acgt\<newline>'', ''NZ\<newline>'', ''>c2\<newline>'', ''A'']"
  have e: "?ls \<noteq> []" by simp
  have h: "is_header (hd ?ls)"
    by (simp add: is_header_def char_at_def)
  have n: "\<forall>l \<in> set ?ls. is_header l \<longrightarrow> (\<exists>n. contigName (example_free_config 2) l = Inr n)"
    by (simp add: free_form_contigName example_free_config_def)
  have t: "\<forall>l \<in> set ?ls. \<not> is_header l \<longrightarrow> NL \<notin> set (butlast l) \<and> CR \<notin> set l"
    by (simp add: is_header_def char_at_def)
  have c: "claimed_total (example_free_config 2) ?ls = 13"
    by (simp add: claimed_total_def line_chars_def is_header_def char_at_def
          example_free_config_def)
  show ?thesis
    using total_appended_bases [OF e h n t, of 21] unfolding c .
qed

lemma missing_tag_example_start:
  "initial_state (example_tag_config 2) 5 [''>c\<newline>'', ''A\<newline>'']
     = \<lparr>calls = [NewGenome 9 9 2 2], warnings = [], warningIssued = False, inAContig = False\<rparr>"
  by (simp add: initial_state_def Let_def count_chromosomes_def genome_size_bound_def
        is_header_def char_at_def example_free_config_def example_tag_config_def)

lemma missing_tag_example_loop:
  "load_loop (example_tag_config 2)
     \<lparr>calls = [NewGenome 9 9 2 2], warnings = [], warningIssued = False, inAContig = False\<rparr>
     [''>c\<newline>'', ''A\<newline>'']
     = Exit TagMissing \<lparr>calls = [NewGenome 9 9 2 2, AddData ''nn''], warnings = [], warningIssued = False, inAContig = True\<rparr>"
  by code_simp

lemma carriage_return_example_start:
  "initial_state (example_free_config 2) 6 [''>c\<newline>'', [CHR ''A'', CR, NL]]
     = \<lparr>calls = [NewGenome 10 10 2 2], warnings = [], warningIssued = False, inAContig = False\<rparr>"
  by (simp add: initial_state_def Let_def count_chromosomes_def genome_size_bound_def
        is_header_def char_at_def example_free_config_def example_tag_config_def)

lemma carriage_return_example_loop:
  "load_loop (example_free_config 2)
     \<lparr>calls = [NewGenome 10 10 2 2], warnings = [], warningIssued = False, inAContig = False\<rparr>
     [''>c\<newline>'', [CHR ''A'', CR, NL]]
     = Done \<lparr>calls = [NewGenome 10 10 2 2, AddData ''nn'', StartContig ''c'', AddData ''AN''],
              warnings = [CR], warningIssued = True, inAContig = True\<rparr>"
  by code_simp

text \<open>
  Claim C1 as the specification states it fails in two ways. When a tag name is configured
  and a header does not have the tag, the input begins with a header line and the load
  ends at line 161 with the first padding block appended, two bytes where the formula
  gives five. And a carriage return before the newline of a sequence line is not cut with
  the newline (line 188 looks for the newline only, where lines 148 to 155 cut both from a
  header): it is appended as \<open>N\<close>, six bytes where the formula gives five.
\<close>

theorem total_differs_from_formula:
  "is_header (hd [''>c\<newline>'', ''A\<newline>''])
   \<and> length (appended (calls (final_state
        (ReadFASTALines (example_tag_config 2) 5 [''>c\<newline>'', ''A\<newline>''])))) = 2
   \<and> claimed_total (example_tag_config 2) [''>c\<newline>'', ''A\<newline>''] = 5
   \<and> is_header (hd [''>c\<newline>'', [CHR ''A'', CR, NL]])
   \<and> length (appended (calls (final_state
        (ReadFASTALines (example_free_config 2) 6 [''>c\<newline>'', [CHR ''A'', CR, NL]])))) = 6
   \<and> claimed_total (example_free_config 2) [''>c\<newline>'', [CHR ''A'', CR, NL]] = 5"
proof -
  have h: "is_header (hd [''>c\<newline>'', ''A\<newline>''])"
    by (simp add: is_header_def char_at_def)
  have r: "ReadFASTALines (example_tag_config 2) 5 [''>c\<newline>'', ''A\<newline>'']
             = Exit TagMissing \<lparr>calls = [NewGenome 9 9 2 2, AddData ''nn''], warnings = [],
                 warningIssued = False, inAContig = True\<rparr>"
    unfolding ReadFASTALines_def missing_tag_example_start missing_tag_example_loop
    by simp
  have c: "claimed_total (example_tag_config 2) [''>c\<newline>'', ''A\<newline>''] = 5"
    by code_simp
  have h': "is_header (hd [''>c\<newline>'', [CHR ''A'', CR, NL]])"
    by (simp add: is_header_def char_at_def)
  have r': "ReadFASTALines (example_free_config 2) 6 [''>c\<newline>'', [CHR ''A'', CR, NL]]
             = Done \<lparr>calls = [NewGenome 10 10 2 2, AddData ''nn'', StartContig ''c'', AddData ''AN'',
                        AddData ''nn'', FillInContigLengths, SortContigsByName],
                     warnings = [CR], warningIssued = True, inAContig = True\<rparr>"
    unfolding ReadFASTALines_def carriage_return_example_start carriage_return_example_loop
    by (simp add: example_free_config_def paddingBuffer_def numeral_2_eq_2)
  have c': "claimed_total (example_free_config 2) [''>c\<newline>'', [CHR ''A'', CR, NL]] = 5"
    by code_simp
  show ?thesis
    using h c h' c' by (simp add: r r')
qed

text \<open>
  Claim C7: when a line that is not a header comes before every header line, the load
  ends in the fatal error for a file that does not begin with a contig name, and nothing
  has been passed to \<open>addData\<close>.
\<close>

theorem data_before_header_is_fatal:
  assumes "lines = before @ l # after"
    and "\<forall>x \<in> set before. \<not> is_header x"
    and "\<not> is_header l"
  shows "\<exists>st. ReadFASTALines cfg fileSize lines = Exit NoContigName st
              \<and> appended (calls st) = []"
proof -
  obtain x xs where x: "lines = x # xs" and nh: "\<not> is_header x"
    using assms by (cases before) auto
  show ?thesis
    unfolding x using load_loop_no_header [OF nh, of "initial_state cfg fileSize (x # xs)" cfg xs]
    by (simp add: ReadFASTALines_def initial_state_flags appended_initial)
qed

theorem data_before_header_is_fatal_witness:
  "\<exists>st. ReadFASTALines (example_free_config 2) 10 [''acgt\<newline>'', ''tt\<newline>'', ''>c\<newline>'']
            = Exit NoContigName st \<and> appended (calls st) = []"
proof -
  have a: "\<forall>x \<in> set [''acgt\<newline>'']. \<not> is_header x"
    by (simp add: is_header_def char_at_def)
  have b: "\<not> is_header ''tt\<newline>''"
    by (simp add: is_header_def char_at_def)
  show ?thesis
    using data_before_header_is_fatal [of "[''acgt\<newline>'', ''tt\<newline>'', ''>c\<newline>'']"
        "[''acgt\<newline>'']" "''tt\<newline>''" "[''>c\<newline>'']", OF _ a b]
    by simp
qed

lemma normalize_bases_prepared: "normalize_bases (truncate_newline l) = map base_of (prepared l)"
  by (simp add: normalize_eq prepared_def)

lemma prepared_char_valid:
  "isValidGenomeCharacter ((lower_N \<circ> toupper) d) = ((lower_N \<circ> toupper) d \<in> set ''ATCGn'')"
  using toupper_not_lower [of d]
  by (auto simp: lower_N_def isValidGenomeCharacter_def)

lemma prepared_valid:
  "c \<in> set (prepared l) \<Longrightarrow> isValidGenomeCharacter c = (c \<in> set ''ATCGn'')"
  using prepared_char_valid by (auto simp: prepared_def simp del: set_simps comp_apply)

lemma base_of_prepared: "map base_of (prepared l) = map replace_invalid (prepared l)"
  by (rule map_cong [OF refl]) (simp add: base_of_def replace_invalid_def prepared_valid del: set_simps)

lemma rejected_chars_invalid: "rejected_chars lines = invalid_chars lines"
  unfolding rejected_chars_def invalid_chars_def
  by (rule filter_cong [OF refl]) (auto simp: prepared_valid simp del: set_simps)

lemma normalize_bases_spec:
  "normalize_bases s = map (replace_invalid \<circ> lower_N \<circ> toupper) s"
  unfolding normalize_eq
  by (rule map_cong [OF refl])
     (simp add: base_of_def replace_invalid_def prepared_char_valid [unfolded comp_def] del: set_simps)

text \<open>
  Claim C8: over a load that completes, the warning is written once, for the first
  character of the sequence lines that is outside A, T, C, G, n after steps a and b, and
  not at all when there is none; every sequence line is appended with each of its invalid
  characters replaced by \<open>N\<close>.
\<close>

theorem one_warning_per_load:
  assumes "ReadFASTALines cfg fileSize lines = Done st"
  shows "warnings st = take 1 (invalid_chars lines)
       \<and> appended (calls st)
           = concat (map (\<lambda>l. if is_header l then paddingBuffer cfg
                               else map replace_invalid (prepared l)) lines)
             @ paddingBuffer cfg"
proof
  let ?st0 = "initial_state cfg fileSize lines"
  obtain st1 where l: "load_loop cfg ?st0 lines = Done st1" and w: "warnings st = warnings st1"
    using assms by (auto simp: ReadFASTALines_def split: outcome.splits)
  show "warnings st = take 1 (invalid_chars lines)"
    using load_loop_warnings [OF l] w by (simp add: rejected_chars_invalid initial_state_flags)
next
  have "line_bases cfg
          = (\<lambda>l. if is_header l then paddingBuffer cfg else map replace_invalid (prepared l))"
    by (rule ext) (simp add: line_bases_def normalize_bases_prepared base_of_prepared)
  then show "appended (calls st)
           = concat (map (\<lambda>l. if is_header l then paddingBuffer cfg
                               else map replace_invalid (prepared l)) lines)
             @ paddingBuffer cfg"
    by (simp add: ReadFASTALines_appended [OF assms])
qed

lemma warning_example_start:
  "initial_state (example_free_config 1) 14 [''>c\<newline>'', ''aZa\<newline>'', ''ZX\<newline>'']
     = \<lparr>calls = [NewGenome 16 16 1 2], warnings = [], warningIssued = False, inAContig = False\<rparr>"
  by (simp add: initial_state_def Let_def count_chromosomes_def genome_size_bound_def
        is_header_def char_at_def example_free_config_def example_tag_config_def)

lemma warning_example_loop:
  "load_loop (example_free_config 1)
     \<lparr>calls = [NewGenome 16 16 1 2], warnings = [], warningIssued = False, inAContig = False\<rparr>
     [''>c\<newline>'', ''aZa\<newline>'', ''ZX\<newline>'']
     = Done \<lparr>calls = [NewGenome 16 16 1 2, AddData ''n'', StartContig ''c'', AddData ''ANA'', AddData ''NN''], warnings = ''Z'', warningIssued = True, inAContig = True\<rparr>"
  by code_simp

lemma warning_example:
  "ReadFASTALines (example_free_config 1) 14 [''>c\<newline>'', ''aZa\<newline>'', ''ZX\<newline>'']
     = Done \<lparr>calls = [NewGenome 16 16 1 2, AddData ''n'', StartContig ''c'', AddData ''ANA'',
                AddData ''NN'', AddData ''n'', FillInContigLengths, SortContigsByName],
             warnings = ''Z'', warningIssued = True, inAContig = True\<rparr>"
  unfolding ReadFASTALines_def warning_example_start warning_example_loop
  by (simp add: example_free_config_def paddingBuffer_def)

theorem one_warning_per_load_witness:
  "\<exists>st. ReadFASTALines (example_free_config 1) 14 [''>c\<newline>'', ''aZa\<newline>'', ''ZX\<newline>''] = Done st
     \<and> warnings st = ''Z'' \<and> appended (calls st) = ''nANANNn''"
proof -
  have i: "invalid_chars [''>c\<newline>'', ''aZa\<newline>'', ''ZX\<newline>''] = ''ZZX''"
    by code_simp
  have d: "concat (map (\<lambda>l. if is_header l then paddingBuffer (example_free_config 1)
                               else map replace_invalid (prepared l))
             [''>c\<newline>'', ''aZa\<newline>'', ''ZX\<newline>'']) @ paddingBuffer (example_free_config 1)
           = ''nANANNn''"
    by code_simp
  note t = one_warning_per_load [OF warning_example, unfolded i d]
  show ?thesis
    using t by (intro exI [of _ "\<lparr>calls = [NewGenome 16 16 1 2, AddData ''n'', StartContig ''c'',
                AddData ''ANA'', AddData ''NN'', AddData ''n'', FillInContigLengths,
                SortContigsByName],
             warnings = ''Z'', warningIssued = True, inAContig = True\<rparr>"] conjI warning_example)
       simp_all
qed








text \<open>
  Claim C10: in every state a load can end in, each byte that was passed to \<open>addData\<close> is
  one of A, C, G, T, n and N, and a padding block holds nothing but \<open>n\<close>.
\<close>

theorem appended_bytes_are_bases:
  "set (appended (calls (final_state (ReadFASTALines cfg fileSize lines)))) \<subseteq> set ''ACGTnN''
   \<and> set (paddingBuffer cfg) \<subseteq> {CHR ''n''}"
proof
  have "set (appended (calls (final_state (ReadFASTALines cfg fileSize lines)))) \<subseteq> set ''ATCGnN''"
    using ReadFASTALines_final [of cfg fileSize lines] by blast
  moreover have "set ''ATCGnN'' = set ''ACGTnN''"
    by auto
  ultimately show "set (appended (calls (final_state (ReadFASTALines cfg fileSize lines))))
                    \<subseteq> set ''ACGTnN''"
    by (simp only:)
next
  show "set (paddingBuffer cfg) \<subseteq> {CHR ''n''}"
    by (auto simp: paddingBuffer_def)
qed

subsection \<open>Loading and writing back\<close>






















end
